theory Spec2Isabelle
  imports Main
begin

unbundle bit_operations_syntax

section \<open>Number-theoretic primitives of \<^verbatim>\<open>integer_advanced.py\<close>\<close>

text \<open>
  Python's \<^verbatim>\<open>int\<close> is unbounded, so every integer of the source is an \<^typ>\<open>int\<close>.
  Python's \<^verbatim>\<open>//\<close> and \<^verbatim>\<open>%\<close> round towards minus infinity, as \<open>div\<close> and \<open>mod\<close> on
  \<^typ>\<open>int\<close> do; \<^verbatim>\<open>&\<close>, \<^verbatim>\<open>|\<close>, \<^verbatim>\<open>^\<close> and \<^verbatim>\<open>~\<close> work on the infinite two's complement
  representation, as \<open>AND\<close>, \<open>OR\<close>, \<open>XOR\<close> and \<open>NOT\<close> on \<^typ>\<open>int\<close> do.
  An exception is a value of type \<open>error\<close>, returned on the left of a sum.
  A \<^verbatim>\<open>while\<close> loop is a \<^theory_text>\<open>partial_function\<close> in the option monad: \<open>None\<close> is
  the loop that never ends.
\<close>

datatype error = ValueError string | ZeroDivisionError

subsection \<open>Extended Euclid and the modular inverse\<close>

text \<open>
  \<^verbatim>\<open>
  def egcd(a, b):
      old_r, r = a, b
      old_s, s = 1, 0
      old_t, t = 0, 1
      while r:
          q = old_r // r
          old_r, r = r, old_r - q * r
          old_s, s = s, old_s - q * s
          old_t, t = t, old_t - q * t
      return old_r, old_s, old_t
  \<close>
\<close>

partial_function (option) egcd_loop ::
  "int \<Rightarrow> int \<Rightarrow> int \<Rightarrow> int \<Rightarrow> int \<Rightarrow> int \<Rightarrow> (int \<times> int \<times> int) option" where
  "egcd_loop old_r r old_s s old_t t =
     (if r \<noteq> 0 then
        (let q = old_r div r
         in egcd_loop r (old_r - q * r) s (old_s - q * s) t (old_t - q * t))
      else Some (old_r, old_s, old_t))"

declare egcd_loop.simps [code]

definition egcd :: "int \<Rightarrow> int \<Rightarrow> (int \<times> int \<times> int) option" where
  "egcd a b = egcd_loop a b 1 0 0 1"

text \<open>
  \<^verbatim>\<open>
  def modinv(a, m):
      g, x, _ = egcd(a % m, m)
      if g != 1:
          raise ValueError("inverse does not exist")
      return x % m
  \<close>
  \<^verbatim>\<open>a % m\<close> raises ZeroDivisionError when \<^verbatim>\<open>m\<close> is zero.
\<close>

definition modinv :: "int \<Rightarrow> int \<Rightarrow> (error + int) option" where
  "modinv a m =
     (if m = 0 then Some (Inl ZeroDivisionError)
      else (case egcd (a mod m) m of
              None \<Rightarrow> None
            | Some (g, x, y) \<Rightarrow>
                if g \<noteq> 1 then Some (Inl (ValueError ''inverse does not exist''))
                else Some (Inr (x mod m))))"

subsection \<open>Bit hacks and the integer-backed bitset\<close>

text \<open>\<^verbatim>\<open>def lowbit(x): return x & -x\<close>\<close>

definition lowbit :: "int \<Rightarrow> int" where
  "lowbit x = x AND (- x)"

text \<open>
  Python's shifts raise \<^verbatim>\<open>ValueError("negative shift count")\<close> on a negative count, whatever
  the shifted value is; otherwise \<^verbatim>\<open>a << n\<close> is \<open>a * 2 ^ n\<close> and \<^verbatim>\<open>a >> n\<close> is \<open>a div 2 ^ n\<close>
  (rounded down).
\<close>

definition lshift :: "int \<Rightarrow> int \<Rightarrow> error + int" where
  "lshift a n = (if n < 0 then Inl (ValueError ''negative shift count'')
                 else Inr (push_bit (nat n) a))"

definition rshift :: "int \<Rightarrow> int \<Rightarrow> error + int" where
  "rshift a n = (if n < 0 then Inl (ValueError ''negative shift count'')
                 else Inr (drop_bit (nat n) a))"

text \<open>
  \<^verbatim>\<open>int.bit_length()\<close>: the number of binary digits of the absolute value, \<open>0\<close> for \<open>0\<close>.
\<close>

fun bit_length_nat :: "nat \<Rightarrow> nat" where
  "bit_length_nat n = (if n = 0 then 0 else Suc (bit_length_nat (n div 2)))"

declare bit_length_nat.simps [simp del]

definition bit_length :: "int \<Rightarrow> int" where
  "bit_length x = int (bit_length_nat (nat \<bar>x\<bar>))"

text \<open>
  \<^verbatim>\<open>
  def bitset_from_indices(indices):
      bs = 0
      for i in indices:
          if i < 0:
              raise ValueError("indices must be non-negative")
          bs |= 1 << i
      return bs
  \<close>
  The iterable is the list of the values it yields, in the order it yields them (for a
  Python set: any order, without duplicates).
\<close>

fun from_indices_loop :: "int \<Rightarrow> int list \<Rightarrow> error + int" where
  "from_indices_loop bs [] = Inr bs"
| "from_indices_loop bs (i # indices) =
     (if i < 0 then Inl (ValueError ''indices must be non-negative'')
      else (case lshift 1 i of
              Inl e \<Rightarrow> Inl e
            | Inr m \<Rightarrow> from_indices_loop (bs OR m) indices))"

definition bitset_from_indices :: "int list \<Rightarrow> error + int" where
  "bitset_from_indices indices = from_indices_loop 0 indices"

text \<open>
  \<^verbatim>\<open>
  def bitset_add(bs, i):      return bs | (1 << i)
  def bitset_remove(bs, i):   return bs & ~(1 << i)
  def bitset_contains(bs, i): return ((bs >> i) & 1) == 1
  \<close>
\<close>

definition bitset_add :: "int \<Rightarrow> int \<Rightarrow> error + int" where
  "bitset_add bs i = (case lshift 1 i of Inl e \<Rightarrow> Inl e | Inr m \<Rightarrow> Inr (bs OR m))"

definition bitset_remove :: "int \<Rightarrow> int \<Rightarrow> error + int" where
  "bitset_remove bs i = (case lshift 1 i of Inl e \<Rightarrow> Inl e | Inr m \<Rightarrow> Inr (bs AND NOT m))"

definition bitset_contains :: "int \<Rightarrow> int \<Rightarrow> error + bool" where
  "bitset_contains bs i = (case rshift bs i of Inl e \<Rightarrow> Inl e | Inr v \<Rightarrow> Inr (v AND 1 = 1))"

text \<open>
  \<^verbatim>\<open>
  def bitset_iter(bs):
      while bs:
          lb = bs & -bs
          yield lb.bit_length() - 1
          bs ^= lb
  \<close>
  The generator is modelled by the list of all the values it yields; \<open>None\<close> is the
  generator that never stops yielding (any negative \<^verbatim>\<open>bs\<close>).
\<close>

partial_function (option) bitset_iter :: "int \<Rightarrow> int list option" where
  "bitset_iter bs =
     (if bs \<noteq> 0 then
        (let lb = bs AND (- bs)
         in Option.bind (bitset_iter (bs XOR lb)) (\<lambda>rest. Some ((bit_length lb - 1) # rest)))
      else Some [])"

declare bitset_iter.simps [code]

subsection \<open>Miller-Rabin\<close>

text \<open>
  Python's built-in \<^verbatim>\<open>pow(b, e, m)\<close> on integers: a ValueError when \<open>m\<close> is zero; for a
  negative exponent the power of the inverse of \<open>b\<close> modulo \<open>m\<close> (a ValueError when there is
  none); otherwise \<open>b ^ e mod m\<close>, with the sign of \<open>m\<close>. The source's \<^verbatim>\<open>modexp\<close> is this
  function.
\<close>

definition pow_mod :: "int \<Rightarrow> int \<Rightarrow> int \<Rightarrow> error + int" where
  "pow_mod b e m =
     (if m = 0 then Inl (ValueError ''pow() 3rd argument cannot be 0'')
      else if e < 0 then
        (case find (\<lambda>x. (b * x) mod m = 1 mod m) (if 0 < m then [0..m - 1] else [m + 1..0]) of
           None \<Rightarrow> Inl (ValueError ''base is not invertible for the given modulus'')
         | Some y \<Rightarrow> Inr (y ^ nat (- e) mod m))
      else Inr (b ^ nat e mod m))"

text \<open>\<^verbatim>\<open>_DET_BASES_64 = [2, 3, 5, 7, 11, 13, 17]\<close>\<close>

definition DET_BASES_64 :: "int list" where
  "DET_BASES_64 = [2, 3, 5, 7, 11, 13, 17]"

text \<open>
  \<^verbatim>\<open>
  def _decompose(n):
      d, s = n - 1, 0
      while d % 2 == 0:
          d //= 2
          s += 1
      return d, s
  \<close>
  The loop never ends for \<open>n = 1\<close> (\<open>d = 0\<close> stays even).
\<close>

partial_function (option) decompose_loop :: "int \<Rightarrow> int \<Rightarrow> (int \<times> int) option" where
  "decompose_loop d s =
     (if d mod 2 = 0 then decompose_loop (d div 2) (s + 1) else Some (d, s))"

declare decompose_loop.simps [code]

definition decompose :: "int \<Rightarrow> (int \<times> int) option" where
  "decompose n = decompose_loop (n - 1) 0"

text \<open>
  \<^verbatim>\<open>
  def _check_witness(a, s, d, n):
      x = pow(a, d, n)
      if x in (1, n - 1):
          return True
      for _ in range(s - 1):
          x = (x * x) % n
          if x == n - 1:
              return True
      return False
  \<close>
  The \<^verbatim>\<open>for\<close> loop runs \<open>nat (s - 1)\<close> times. When \<^verbatim>\<open>pow\<close> has returned, \<open>n\<close> is not zero, so
  \<^verbatim>\<open>% n\<close> does not raise.
\<close>

fun check_witness_loop :: "nat \<Rightarrow> int \<Rightarrow> int \<Rightarrow> bool" where
  "check_witness_loop 0 x n = False"
| "check_witness_loop (Suc k) x n =
     (let x' = (x * x) mod n
      in if x' = n - 1 then True else check_witness_loop k x' n)"

definition check_witness :: "int \<Rightarrow> int \<Rightarrow> int \<Rightarrow> int \<Rightarrow> error + bool" where
  "check_witness a s d n =
     (case pow_mod a d n of
        Inl e \<Rightarrow> Inl e
      | Inr x \<Rightarrow>
          if x = 1 \<or> x = n - 1 then Inr True
          else Inr (check_witness_loop (nat (s - 1)) x n))"

text \<open>\<^verbatim>\<open>all(_check_witness(a, s, d, n) for a in bases)\<close>, stopping at the first failure.\<close>

fun all_witnesses :: "int list \<Rightarrow> int \<Rightarrow> int \<Rightarrow> int \<Rightarrow> error + bool" where
  "all_witnesses [] s d n = Inr True"
| "all_witnesses (a # bases) s d n =
     (case check_witness a s d n of
        Inl e \<Rightarrow> Inl e
      | Inr passed \<Rightarrow> if passed then all_witnesses bases s d n else Inr False)"

text \<open>
  \<^verbatim>\<open>
  def is_probable_prime(n, rounds=8):
      if n < 2:
          return False
      small = [2, 3, 5, 7, 11, 13, 17, 19, 23, 29]
      for p in small:
          if n == p:
              return True
          if n % p == 0:
              return False
      d, s = _decompose(n)
      bases = _DET_BASES_64 if n < (1 << 64) else
              [random.randrange(2, n - 2) for _ in range(rounds)]
      return all(_check_witness(a, s, d, n) for a in bases)
  \<close>
  The global random source is the parameter \<open>rnd\<close>: \<open>rnd k\<close> is the value the \<open>k\<close>-th call of
  \<^verbatim>\<open>random.randrange(2, n - 2)\<close> returns.
\<close>

definition small :: "int list" where
  "small = [2, 3, 5, 7, 11, 13, 17, 19, 23, 29]"

fun trial_division :: "int \<Rightarrow> int list \<Rightarrow> bool option" where
  "trial_division n [] = None"
| "trial_division n (p # ps) =
     (if n = p then Some True
      else if n mod p = 0 then Some False
      else trial_division n ps)"

definition is_probable_prime :: "(nat \<Rightarrow> int) \<Rightarrow> int \<Rightarrow> int \<Rightarrow> (error + bool) option" where
  "is_probable_prime rnd n rounds =
     (if n < 2 then Some (Inr False)
      else (case trial_division n small of
              Some verdict \<Rightarrow> Some (Inr verdict)
            | None \<Rightarrow>
                (case decompose n of
                   None \<Rightarrow> None
                 | Some (d, s) \<Rightarrow>
                     let bases = (if n < 2 ^ 64 then DET_BASES_64 else map rnd [0..<nat rounds])
                     in Some (all_witnesses bases s d n))))"

text \<open>The ground truth: a prime is an integer above \<open>1\<close> with no divisor in \<open>[2, p - 1]\<close>.\<close>

definition is_prime :: "int \<Rightarrow> bool" where
  "is_prime p \<longleftrightarrow> 1 < p \<and> list_all (\<lambda>d. \<not> d dvd p) [2..p - 1]"

subsection \<open>Sieve of Eratosthenes\<close>

text \<open>
  \<^verbatim>\<open>int(limit ** 0.5)\<close> is a floating-point square root, truncated. It is modelled by the
  exact integer square root \<open>isqrt\<close>, which it equals as long as the double-precision
  result is exact enough (every \<open>limit\<close> below \<open>2 ^ 52\<close>).
\<close>

definition isqrt :: "int \<Rightarrow> int" where
  "isqrt n = int (length (takeWhile (\<lambda>k. int k * int k \<le> n) [1..<Suc (nat n)]))"

text \<open>\<^verbatim>\<open>range(start, stop, step)\<close> for a positive step, the only kind the sieve uses.\<close>

definition range_step :: "int \<Rightarrow> int \<Rightarrow> int \<Rightarrow> int list" where
  "range_step start stop step =
     map (\<lambda>k. start + int k * step) [0..<nat ((stop - start + step - 1) div step)]"

text \<open>
  \<^verbatim>\<open>
  def sieve(limit):
      if limit < 2:
          return []
      size = limit // 2
      composite = 0
      r = int(limit ** 0.5)
      for i in range(3, r + 1, 2):
          idx = i // 2
          if ((composite >> idx) & 1) == 0:
              start = (i * i) // 2
              step = i
              for j in range(start, size, step):
                  composite |= 1 << j
      primes = [2] + [2 * i + 1 for i in range(1, size)
                      if ((composite >> i) & 1) == 0 and 2 * i + 1 <= limit]
      return primes
  \<close>
  \<open>mark_multiples\<close> is the inner loop, \<open>sieve_marks\<close> the outer one; \<open>sz\<close> stands for the
  source's \<^verbatim>\<open>size\<close>. All shift counts are positive indices, so the shifts cannot raise.
\<close>

definition mark_multiples :: "int \<Rightarrow> int \<Rightarrow> int \<Rightarrow> int" where
  "mark_multiples composite i sz =
     fold (\<lambda>j c. c OR push_bit (nat j) 1) (range_step ((i * i) div 2) sz i) composite"

definition sieve_marks :: "int \<Rightarrow> int" where
  "sieve_marks limit =
     (let sz = limit div 2; r = isqrt limit
      in fold (\<lambda>i composite.
                 if drop_bit (nat (i div 2)) composite AND 1 = 0
                 then mark_multiples composite i sz
                 else composite)
           (range_step 3 (r + 1) 2) 0)"

definition sieve :: "int \<Rightarrow> int list" where
  "sieve limit =
     (if limit < 2 then []
      else let sz = limit div 2; composite = sieve_marks limit
           in 2 # map (\<lambda>i. 2 * i + 1)
                    (filter (\<lambda>i. drop_bit (nat i) composite AND 1 = 0 \<and> 2 * i + 1 \<le> limit)
                       (range_step 1 sz 1)))"

subsection \<open>Square-and-multiply\<close>

text \<open>
  Not in the source: the usual fast modular power, proved equal to \<open>b ^ e mod m\<close> below and
  used as the code equation of \<open>pow_mod\<close>, so that concrete cases can be evaluated.
\<close>

function fast_pow_mod :: "int \<Rightarrow> int \<Rightarrow> int \<Rightarrow> int" where
  "fast_pow_mod b e m =
     (if e \<le> 0 then 1 mod m
      else let h = fast_pow_mod b (e div 2) m; sq = (h * h) mod m
           in if e mod 2 = 0 then sq else (sq * b) mod m)"
  by pat_completeness auto
termination
  by (relation "measure (\<lambda>(b, e, m). nat e)") auto

declare fast_pow_mod.simps [simp del]

section \<open>The extended Euclidean algorithm\<close>

text \<open>
  One lemma about the loop from any state: it returns, the absolute value of the returned
  remainder is the gcd of the two remainders it started from, its sign is the sign of the
  second remainder (of the first when the second is zero), and a linear combination of
  \<open>a\<close> and \<open>b\<close> for both remainders is kept for the result.
  The induction is on the absolute value of the second remainder, which the loop body
  makes smaller.
\<close>

lemma egcd_loop_result:
  "\<exists>g x y. egcd_loop old_r r old_s s old_t t = Some (g, x, y)
     \<and> \<bar>g\<bar> = gcd old_r r
     \<and> (0 < r \<longrightarrow> 0 < g) \<and> (r < 0 \<longrightarrow> g < 0) \<and> (r = 0 \<longrightarrow> g = old_r)
     \<and> (\<forall>a b. old_r = a * old_s + b * old_t \<and> r = a * s + b * t \<longrightarrow> g = a * x + b * y)"
proof (induction "nat \<bar>r\<bar>" arbitrary: old_r r old_s s old_t t rule: less_induct)
  case less
  show ?case
  proof (cases "r = 0")
    case True
    then show ?thesis
      by (simp add: egcd_loop.simps)
  next
    case False
    define q where "q = old_r div r"
    have rem: "old_r - q * r = old_r mod r"
      by (simp add: q_def minus_div_mult_eq_mod)
    have smaller: "nat \<bar>old_r - q * r\<bar> < nat \<bar>r\<bar>"
      using False by (simp add: rem abs_mod_less)
    obtain g x y where
      run: "egcd_loop r (old_r - q * r) s (old_s - q * s) t (old_t - q * t) = Some (g, x, y)"
      and g_gcd: "\<bar>g\<bar> = gcd r (old_r - q * r)"
      and g_pos: "0 < old_r - q * r \<longrightarrow> 0 < g"
      and g_neg: "old_r - q * r < 0 \<longrightarrow> g < 0"
      and g_zero: "old_r - q * r = 0 \<longrightarrow> g = r"
      and comb: "\<forall>a b. r = a * s + b * t \<and> old_r - q * r = a * (old_s - q * s) + b * (old_t - q * t)
                   \<longrightarrow> g = a * x + b * y"
      using less.hyps [OF smaller] by blast
    have step: "egcd_loop old_r r old_s s old_t t = Some (g, x, y)"
      using False run by (subst egcd_loop.simps) (simp add: q_def Let_def)
    have "gcd r (old_r mod r) = gcd old_r r"
      by (rule gcd_red_int [symmetric])
    then have c1: "\<bar>g\<bar> = gcd old_r r"
      using g_gcd by (simp add: rem)
    have c2: "0 < r \<longrightarrow> 0 < g"
    proof
      assume "0 < r"
      then have "0 \<le> old_r mod r" by simp
      then show "0 < g"
        using g_pos g_zero \<open>0 < r\<close> by (auto simp: rem order_le_less)
    qed
    have c3: "r < 0 \<longrightarrow> g < 0"
    proof
      assume "r < 0"
      then have "old_r mod r \<le> 0" by simp
      then show "g < 0"
        using g_neg g_zero \<open>r < 0\<close> by (auto simp: rem order_le_less)
    qed
    have c4: "\<forall>a b. old_r = a * old_s + b * old_t \<and> r = a * s + b * t \<longrightarrow> g = a * x + b * y"
    proof (intro allI impI)
      fix a b
      assume inv: "old_r = a * old_s + b * old_t \<and> r = a * s + b * t"
      then have "old_r - q * r = a * (old_s - q * s) + b * (old_t - q * t)"
        by (simp add: algebra_simps)
      with inv comb show "g = a * x + b * y"
        by blast
    qed
    show ?thesis
      using step c1 c2 c3 c4 False by blast
  qed
qed

text \<open>
  C7. \<^verbatim>\<open>egcd(a, b)\<close> terminates for every pair of integers, zero and negative values
  included: the loop reaches the remainder zero and returns a triple.
\<close>

theorem egcd_terminates: "\<exists>g x y. egcd a b = Some (g, x, y)"
  using egcd_loop_result [of a b 1 0 0 1] unfolding egcd_def by blast

text \<open>
  C4. For all non-negative integers \<open>a\<close> and \<open>b\<close>, not both zero, \<^verbatim>\<open>egcd(a, b)\<close> returns a
  triple \<open>(g, x, y)\<close> with \<open>a * x + b * y = g\<close> and \<open>g\<close> the greatest common divisor of \<open>a\<close>
  and \<open>b\<close>.
\<close>

theorem egcd_bezout_gcd:
  assumes "0 \<le> a" and "0 \<le> b" and "a \<noteq> 0 \<or> b \<noteq> 0"
  shows "\<exists>g x y. egcd a b = Some (g, x, y) \<and> a * x + b * y = g \<and> g = gcd a b"
proof -
  obtain g x y where run: "egcd_loop a b 1 0 0 1 = Some (g, x, y)"
    and g_gcd: "\<bar>g\<bar> = gcd a b"
    and g_pos: "0 < b \<longrightarrow> 0 < g" and g_zero: "b = 0 \<longrightarrow> g = a"
    and comb: "\<forall>a' b'. a = a' * 1 + b' * 0 \<and> b = a' * 0 + b' * 1 \<longrightarrow> g = a' * x + b' * y"
    using egcd_loop_result [of a b 1 0 0 1] by blast
  have "g = a * x + b * y"
    using comb by simp
  moreover have "0 \<le> g"
    using assms g_pos g_zero by (cases "b = 0") auto
  ultimately show ?thesis
    using run g_gcd by (simp add: egcd_def)
qed

theorem egcd_bezout_gcd_witness:
  "(0::int) \<le> 240 \<and> (0::int) \<le> 46
     \<and> (\<exists>g x y. egcd 240 46 = Some (g, x, y) \<and> 240 * x + 46 * y = g \<and> g = gcd 240 46)"
  using egcd_bezout_gcd [of 240 46] by simp

text \<open>
  C2. The claim: for all integers \<open>a\<close> and \<open>b\<close>, the first component of \<^verbatim>\<open>egcd(a, b)\<close> is
  non-negative. The loop never normalises the sign: at \<open>a = 0\<close>, \<open>b = -5\<close> the quotient is
  \<open>0\<close>, the next remainder is \<open>0\<close>, and the function returns \<open>-5\<close>, whereas the gcd that the
  docstring promises is \<open>5\<close>.
\<close>

theorem egcd_negative_divisor:
  "egcd 0 (- 5) = Some (- 5, 0, 1) \<and> gcd (0::int) (- 5) = 5"
  by (simp add: egcd_def egcd_loop.simps)

text \<open>
  In general the returned \<open>g\<close> has the sign of \<open>b\<close>, and that of \<open>a\<close> when \<open>b\<close> is zero.
\<close>

lemma egcd_sign:
  assumes "egcd a b = Some (g, x, y)"
  shows "g < 0 \<longleftrightarrow> b < 0 \<or> (b = 0 \<and> a < 0)"
  using egcd_loop_result [of a b 1 0 0 1] assms unfolding egcd_def
  by (cases "b = 0"; cases "0 < b") auto

text \<open>
  C5. For all integers \<open>a\<close> and \<open>m\<close> with \<open>m > 1\<close>: \<^verbatim>\<open>modinv(a, m)\<close> raises the ValueError
  "inverse does not exist" exactly when \<open>gcd a m \<noteq> 1\<close>, and when \<open>gcd a m = 1\<close> it returns an
  \<open>x\<close> in \<open>[0, m)\<close> with \<open>(a * x) mod m = 1\<close>.
\<close>

theorem modinv_spec:
  assumes "1 < m"
  shows "(gcd a m \<noteq> 1 \<longrightarrow> modinv a m = Some (Inl (ValueError ''inverse does not exist'')))
       \<and> (gcd a m = 1 \<longrightarrow>
            (\<exists>x. modinv a m = Some (Inr x) \<and> 0 \<le> x \<and> x < m \<and> (a * x) mod m = 1))"
proof -
  obtain g x y where run: "egcd (a mod m) m = Some (g, x, y)"
    and g_gcd: "\<bar>g\<bar> = gcd (a mod m) m"
    and g_pos: "0 < m \<longrightarrow> 0 < g"
    and comb: "\<forall>a' b'. a mod m = a' * 1 + b' * 0 \<and> m = a' * 0 + b' * 1 \<longrightarrow> g = a' * x + b' * y"
    using egcd_loop_result [of "a mod m" m 1 0 0 1] unfolding egcd_def by blast
  have "gcd (a mod m) m = gcd a m"
    using gcd_red_int [of a m] by (simp add: gcd.commute)
  then have g_eq: "g = gcd a m"
    using g_gcd g_pos assms by simp
  have bez: "g = (a mod m) * x + m * y"
    using comb by simp
  have err: "modinv a m = Some (Inl (ValueError ''inverse does not exist''))" if "gcd a m \<noteq> 1"
    using that assms run g_eq by (simp add: modinv_def)
  have ok: "\<exists>x'. modinv a m = Some (Inr x') \<and> 0 \<le> x' \<and> x' < m \<and> (a * x') mod m = 1"
    if "gcd a m = 1"
  proof -
    have ret: "modinv a m = Some (Inr (x mod m))"
      using that assms run g_eq by (simp add: modinv_def)
    have one: "(a mod m) * x + m * y = 1"
      using bez g_eq that by simp
    have "(a * (x mod m)) mod m = ((a mod m) * x) mod m"
      by (simp add: mod_mult_left_eq mod_mult_right_eq)
    also have "\<dots> = ((a mod m) * x + m * y) mod m"
      by simp
    also have "\<dots> = 1"
      using assms by (simp only: one) simp
    finally have "(a * (x mod m)) mod m = 1" .
    then show ?thesis
      using ret assms by simp
  qed
  show ?thesis
    using err ok by blast
qed

theorem modinv_spec_witness:
  "(1::int) < 11 \<and> gcd (3::int) 11 = 1
     \<and> (\<exists>x. modinv 3 11 = Some (Inr x) \<and> 0 \<le> x \<and> x < 11 \<and> (3 * x) mod 11 = 1)
     \<and> (1::int) < 6 \<and> gcd (4::int) 6 \<noteq> 1
     \<and> modinv 4 6 = Some (Inl (ValueError ''inverse does not exist''))"
proof -
  have m1: "(1::int) < 11" and m2: "(1::int) < 6"
    by simp_all
  have g1: "gcd (3::int) 11 = 1" and g2: "gcd (4::int) 6 \<noteq> 1"
    by code_simp+
  have "\<exists>x. modinv 3 11 = Some (Inr x) \<and> 0 \<le> x \<and> x < 11 \<and> (3 * x) mod 11 = 1"
    using modinv_spec [OF m1, of 3] g1 by blast
  moreover have "modinv 4 6 = Some (Inl (ValueError ''inverse does not exist''))"
    using modinv_spec [OF m2, of 4] g2 by blast
  ultimately show ?thesis
    using m1 m2 g1 g2 by blast
qed

section \<open>Lowest set bit\<close>

text \<open>
  A non-zero integer is \<open>2 ^ m * j\<close> with \<open>j\<close> odd, and \<open>x AND - x\<close> of such a number is
  \<open>2 ^ m\<close>.
\<close>

lemma odd_and_minus: "odd (j::int) \<Longrightarrow> j AND (- j) = 1"
proof -
  assume o: "odd j"
  have "- j = NOT j + 1" by (simp add: minus_eq_not_plus_1)
  also have "\<dots> = NOT j OR 1" using o by (simp add: or_one_eq)
  finally have "j AND (- j) = (j AND NOT j) OR (j AND 1)"
    by (simp add: bit.conj_disj_distrib)
  then show ?thesis using o by (simp add: and_one_eq odd_iff_mod_2_eq_one)
qed

lemma even_and_minus: "(2 * a) AND (- (2 * a)) = 2 * (a AND (- a))" for a :: int
proof -
  have "(2 * a) AND (2 * (- a)) = 2 * (a AND (- a))"
    using push_bit_and [of 1 a "- a"] by (simp add: push_bit_eq_mult mult.commute)
  then show ?thesis by simp
qed


lemma int_odd_decomp: "k \<noteq> 0 \<Longrightarrow> \<exists>m j. odd j \<and> k = 2 ^ m * j" for k :: int
proof (induction "nat \<bar>k\<bar>" arbitrary: k rule: less_induct)
  case less
  show ?case
  proof (cases "even k")
    case False
    then have "odd k \<and> k = 2 ^ 0 * k" by simp
    then show ?thesis by blast
  next
    case True
    then obtain k' where k': "k = 2 * k'" by (auto elim: evenE)
    with less.prems have "k' \<noteq> 0" and "nat \<bar>k'\<bar> < nat \<bar>k\<bar>" by auto
    then obtain m j where "odd j" and "k' = 2 ^ m * j"
      using less.hyps by blast
    then have "odd j \<and> k = 2 ^ Suc m * j" using k' by simp
    then show ?thesis by blast
  qed
qed

lemma and_minus_pow2_odd: "odd j \<Longrightarrow> (2 ^ m * j) AND (- (2 ^ m * j)) = 2 ^ m" for j :: int
proof (induction m)
  case 0
  then show ?case by (simp add: odd_and_minus)
next
  case (Suc m)
  have "(2 * (2 ^ m * j)) AND (- (2 * (2 ^ m * j))) = 2 * ((2 ^ m * j) AND (- (2 ^ m * j)))"
    by (rule even_and_minus)
  with Suc show ?case by (simp add: mult.assoc)
qed

lemma pow2_dvd_pow2_odd:
  fixes j :: int
  assumes "odd j" and "2 ^ i dvd 2 ^ m * j"
  shows "i \<le> m"
proof (rule ccontr)
  assume "\<not> i \<le> m"
  then have "Suc m \<le> i" by simp
  then have "(2::int) ^ Suc m dvd 2 ^ i" by (rule le_imp_power_dvd)
  then have "(2::int) ^ Suc m dvd 2 ^ m * j" using assms(2) by (rule dvd_trans)
  then have "(2::int) ^ m * 2 dvd 2 ^ m * j" by (simp add: mult.commute)
  then have "(2::int) dvd j" by simp
  with assms(1) show False by simp
qed

text \<open>
  C9. \<^verbatim>\<open>lowbit(0)\<close> is the value \<open>0\<close> (the function is total: nothing in it can raise), and
  for every \<open>x > 0\<close>, \<^verbatim>\<open>lowbit(x)\<close> is the largest power of two that divides \<open>x\<close>.
\<close>

theorem lowbit_spec:
  "lowbit 0 = 0 \<and>
   (0 < x \<longrightarrow> (\<exists>k. lowbit x = 2 ^ k \<and> 2 ^ k dvd x \<and> (\<forall>i. 2 ^ i dvd x \<longrightarrow> i \<le> k)))"
proof (intro conjI impI)
  show "lowbit 0 = 0" by (simp add: lowbit_def)
next
  assume "0 < x"
  then obtain m j where j: "odd j" and x: "x = 2 ^ m * j"
    using int_odd_decomp [of x] by auto
  have "lowbit x = 2 ^ m"
    using j unfolding lowbit_def x by (rule and_minus_pow2_odd)
  moreover have "2 ^ m dvd x" by (simp add: x)
  moreover have "\<forall>i. 2 ^ i dvd x \<longrightarrow> i \<le> m"
    using pow2_dvd_pow2_odd [OF j] by (simp add: x)
  ultimately show "\<exists>k. lowbit x = 2 ^ k \<and> 2 ^ k dvd x \<and> (\<forall>i. 2 ^ i dvd x \<longrightarrow> i \<le> k)"
    by blast
qed

theorem lowbit_spec_witness:
  "lowbit 0 = 0 \<and> (0::int) < 52 \<and>
   (\<exists>k. lowbit 52 = 2 ^ k \<and> (2::int) ^ k dvd 52 \<and> (\<forall>i. (2::int) ^ i dvd 52 \<longrightarrow> i \<le> k))"
  using lowbit_spec [of 52] by simp

section \<open>The bitset\<close>

lemma bit_length_nat_pow2: "bit_length_nat (2 ^ m) = Suc m"
proof (induction m)
  case 0
  show ?case by (simp add: bit_length_nat.simps [of "Suc 0"] bit_length_nat.simps [of 0])
next
  case (Suc m)
  then show ?case by (simp add: bit_length_nat.simps [of "2 * 2 ^ m"])
qed

lemma bit_length_pow2: "bit_length (2 ^ m) - 1 = int m"
proof -
  have "nat \<bar>(2::int) ^ m\<bar> = 2 ^ m"
    by (simp add: nat_power_eq)
  then have "bit_length (2 ^ m) = int (Suc m)"
    unfolding bit_length_def by (simp only: bit_length_nat_pow2)
  then show ?thesis
    by simp
qed


text \<open>
  Iterating a non-negative bitset stops, and yields the positions of its set bits in
  strictly ascending order. Induction on the value of the bitset, which clearing the
  lowest set bit makes smaller.
\<close>

lemma bitset_iter_nonneg:
  "0 \<le> bs \<Longrightarrow>
     \<exists>ys. bitset_iter bs = Some ys \<and> sorted_wrt (<) ys \<and> set ys = int ` {n. bit bs n}"
proof (induction "nat bs" arbitrary: bs rule: less_induct)
  case less
  show ?case
  proof (cases "bs = 0")
    case True
    then show ?thesis by (simp add: bitset_iter.simps)
  next
    case False
    then obtain m j where j: "odd j" and bs: "bs = 2 ^ m * j"
      using int_odd_decomp [of bs] by auto
    have j_pos: "1 \<le> j"
    proof -
      have "0 < bs" using less.prems False by simp
      then have "0 < 2 ^ m * j" by (simp only: bs)
      then have "0 < j" by (simp add: zero_less_mult_iff)
      then show ?thesis by simp
    qed
    define lb where "lb = bs AND (- bs)"
    have lb: "lb = 2 ^ m"
      using j unfolding lb_def bs by (rule and_minus_pow2_odd)
    have idx: "bit_length lb - 1 = int m"
      by (simp add: lb bit_length_pow2)
    have "bs XOR lb = push_bit m j XOR push_bit m 1"
      by (simp add: bs lb push_bit_eq_mult mult.commute)
    also have "\<dots> = push_bit m (j XOR 1)"
      by (simp add: push_bit_xor)
    also have "j XOR 1 = j - 1"
      using j by (simp add: xor_one_eq)
    finally have next_bs: "bs XOR lb = 2 ^ m * (j - 1)"
      by (simp add: push_bit_eq_mult mult.commute)
    have next_nonneg: "0 \<le> bs XOR lb"
      using j_pos by (simp add: next_bs)
    have lt: "2 ^ m * (j - 1) < 2 ^ m * j"
      by simp
    have ge: "0 \<le> 2 ^ m * (j - 1)"
      using j_pos by simp
    have smaller: "nat (bs XOR lb) < nat bs"
      unfolding next_bs unfolding bs using lt ge by linarith
    obtain ys where run: "bitset_iter (bs XOR lb) = Some ys"
      and srt: "sorted_wrt (<) ys"
      and elems: "set ys = int ` {n. bit (bs XOR lb) n}"
      using less.hyps [OF smaller next_nonneg] by blast
    have bit_bs: "bit bs n \<longleftrightarrow> m \<le> n \<and> bit j (n - m)" for n
      using bit_push_bit_iff [of m j n] by (simp add: bs push_bit_eq_mult mult.commute)
    have bit_m: "bit bs m"
      using j by (simp add: bit_bs bit_0)
    have bit_next: "bit (bs XOR lb) n \<longleftrightarrow> bit bs n \<and> n \<noteq> m" for n
      using bit_m by (auto simp: bit_xor_iff lb bit_exp_iff)
    have above: "int m < y" if "y \<in> set ys" for y
      using that elems bit_next bit_bs by (auto simp: order_le_less)
    have step: "bitset_iter bs = Some (int m # ys)"
      using False run idx by (subst bitset_iter.simps) (simp add: lb_def [symmetric] Let_def)
    have "sorted_wrt (<) (int m # ys)"
      using srt above by simp
    moreover have "set (int m # ys) = int ` {n. bit bs n}"
      using elems bit_next bit_m by auto
    ultimately show ?thesis
      using step by blast
  qed
qed

lemma from_indices_loop_bits:
  "\<forall>i\<in>set indices. 0 \<le> i \<Longrightarrow>
     \<exists>bs'. from_indices_loop bs indices = Inr bs'
       \<and> (\<forall>n. bit bs' n \<longleftrightarrow> bit bs n \<or> int n \<in> set indices) \<and> (0 \<le> bs \<longrightarrow> 0 \<le> bs')"
proof (induction indices arbitrary: bs)
  case Nil
  then show ?case by simp
next
  case (Cons i indices)
  then have i: "0 \<le> i" and rest: "\<forall>i\<in>set indices. 0 \<le> i"
    by simp_all
  obtain bs' where run: "from_indices_loop (bs OR push_bit (nat i) 1) indices = Inr bs'"
    and bits: "\<forall>n. bit bs' n \<longleftrightarrow> bit (bs OR push_bit (nat i) 1) n \<or> int n \<in> set indices"
    and sign: "0 \<le> bs OR push_bit (nat i) 1 \<longrightarrow> 0 \<le> bs'"
    using Cons.IH [OF rest] by blast
  have step: "from_indices_loop bs (i # indices) = Inr bs'"
    using i run by (simp add: lshift_def)
  have "bit bs' n \<longleftrightarrow> bit bs n \<or> int n \<in> set (i # indices)" for n
  proof -
    have "n = nat i \<longleftrightarrow> int n = i" using i by auto
    then show ?thesis
      using bits by (auto simp: bit_or_iff bit_exp_iff)
  qed
  moreover have "0 \<le> bs \<longrightarrow> 0 \<le> bs'"
    using sign by simp
  ultimately show ?case
    using step by blast
qed

text \<open>
  C8. For any finite collection \<open>S\<close> of non-negative integers (given in any order, with or
  without repetitions), \<^verbatim>\<open>bitset_iter(bitset_from_indices(S))\<close> yields exactly the elements
  of \<open>S\<close> in strictly ascending order; and for every bitset \<open>bs\<close> and index \<open>i \<ge> 0\<close>,
  \<^verbatim>\<open>bitset_contains(bitset_add(bs, i), i)\<close> is true and
  \<^verbatim>\<open>bitset_contains(bitset_remove(bs, i), i)\<close> is false.
\<close>

theorem bitset_roundtrip:
  "((\<forall>i\<in>set S. 0 \<le> i) \<longrightarrow>
      (\<exists>bs ys. bitset_from_indices S = Inr bs \<and> bitset_iter bs = Some ys
         \<and> sorted_wrt (<) ys \<and> set ys = set S))
   \<and> (0 \<le> i \<longrightarrow>
      (\<exists>b. bitset_add bs i = Inr b \<and> bitset_contains b i = Inr True)
      \<and> (\<exists>b. bitset_remove bs i = Inr b \<and> bitset_contains b i = Inr False))"
proof (intro conjI impI)
  assume nonneg: "\<forall>i\<in>set S. 0 \<le> i"
  obtain b where run: "from_indices_loop 0 S = Inr b"
    and bits: "\<forall>n. bit b n \<longleftrightarrow> bit (0::int) n \<or> int n \<in> set S" and sign: "0 \<le> b"
    using from_indices_loop_bits [OF nonneg, of 0] by auto
  obtain ys where it: "bitset_iter b = Some ys" and srt: "sorted_wrt (<) ys"
    and elems: "set ys = int ` {n. bit b n}"
    using bitset_iter_nonneg [OF sign] by blast
  have "int ` {n. bit b n} = set S"
  proof
    show "int ` {n. bit b n} \<subseteq> set S" using bits by auto
    show "set S \<subseteq> int ` {n. bit b n}"
    proof
      fix x assume x: "x \<in> set S"
      then have "0 \<le> x" using nonneg by simp
      then have "x = int (nat x)" by simp
      moreover have "bit b (nat x)" using bits x \<open>0 \<le> x\<close> by simp
      ultimately show "x \<in> int ` {n. bit b n}" by blast
    qed
  qed
  then show "\<exists>bs ys. bitset_from_indices S = Inr bs \<and> bitset_iter bs = Some ys
         \<and> sorted_wrt (<) ys \<and> set ys = set S"
    using run it srt elems by (simp add: bitset_from_indices_def)
next
  assume "0 \<le> i"
  then show "\<exists>b. bitset_add bs i = Inr b \<and> bitset_contains b i = Inr True"
    by (simp add: bitset_add_def bitset_contains_def lshift_def rshift_def and_one_eq
        bit_iff_odd_drop_bit [symmetric] bit_or_iff bit_exp_iff odd_iff_mod_2_eq_one [symmetric])
next
  assume "0 \<le> i"
  then show "\<exists>b. bitset_remove bs i = Inr b \<and> bitset_contains b i = Inr False"
    by (simp add: bitset_remove_def bitset_contains_def lshift_def rshift_def and_one_eq
        bit_iff_odd_drop_bit [symmetric] bit_and_iff bit_not_iff bit_exp_iff odd_iff_mod_2_eq_one [symmetric])
qed

theorem bitset_roundtrip_witness:
  "(\<exists>bs ys. bitset_from_indices [5, 0, 2, 5] = Inr bs \<and> bitset_iter bs = Some ys
       \<and> sorted_wrt (<) ys \<and> set ys = set [5, 0, 2, 5])
   \<and> (0::int) \<le> 3
   \<and> (\<exists>b. bitset_add 37 3 = Inr b \<and> bitset_contains b 3 = Inr True)
   \<and> (\<exists>b. bitset_remove 37 3 = Inr b \<and> bitset_contains b 3 = Inr False)"
  using bitset_roundtrip [of "[5, 0, 2, 5]" 3 37] by simp

text \<open>
  C10. For every bitset \<open>bs\<close> and every negative index \<open>i\<close>, each of \<^verbatim>\<open>bitset_add\<close>,
  \<^verbatim>\<open>bitset_remove\<close> and \<^verbatim>\<open>bitset_contains\<close> fails with the ValueError of a negative shift
  count; for every \<open>i \<ge> 0\<close> all three return a value.
\<close>

theorem bitset_negative_index:
  "(i < 0 \<longrightarrow>
      bitset_add bs i = Inl (ValueError ''negative shift count'')
      \<and> bitset_remove bs i = Inl (ValueError ''negative shift count'')
      \<and> bitset_contains bs i = Inl (ValueError ''negative shift count''))
   \<and> (0 \<le> i \<longrightarrow>
      (\<exists>v. bitset_add bs i = Inr v) \<and> (\<exists>v. bitset_remove bs i = Inr v)
      \<and> (\<exists>v. bitset_contains bs i = Inr v))"
  by (simp add: bitset_add_def bitset_remove_def bitset_contains_def lshift_def rshift_def)

theorem bitset_negative_index_witness:
  "(- 1::int) < 0
   \<and> bitset_add 37 (- 1) = Inl (ValueError ''negative shift count'')
   \<and> bitset_remove 37 (- 1) = Inl (ValueError ''negative shift count'')
   \<and> bitset_contains 37 (- 1) = Inl (ValueError ''negative shift count'')
   \<and> (0::int) \<le> 2
   \<and> (\<exists>v. bitset_add 37 2 = Inr v) \<and> (\<exists>v. bitset_remove 37 2 = Inr v)
   \<and> (\<exists>v. bitset_contains 37 2 = Inr v)"
  using bitset_negative_index [of "- 1" 37] bitset_negative_index [of 2 37] by simp

section \<open>Miller-Rabin on concrete inputs\<close>

lemma fast_pow_mod_eq: "0 \<le> e \<Longrightarrow> fast_pow_mod b e m = b ^ nat e mod m"
proof (induction b e m rule: fast_pow_mod.induct)
  case (1 b e m)
  show ?case
  proof (cases "e \<le> 0")
    case True
    with "1.prems" have "e = 0" by simp
    then show ?thesis by (simp add: fast_pow_mod.simps [of b 0 m])
  next
    case False
    define h where "h = nat (e div 2)"
    have "0 \<le> e div 2"
      using False by simp
    then have ih: "fast_pow_mod b (e div 2) m = b ^ h mod m"
      using "1.IH" False by (simp add: h_def)
    have sq: "(b ^ h mod m * (b ^ h mod m)) mod m = b ^ (2 * h) mod m"
    proof -
      have "b ^ (2 * h) = b ^ h * b ^ h"
        by (simp add: power_add [symmetric] mult_2)
      then show ?thesis
        by (simp only: mod_mult_eq)
    qed
    have unfold: "fast_pow_mod b e m =
        (if e mod 2 = 0 then (fast_pow_mod b (e div 2) m * fast_pow_mod b (e div 2) m) mod m
         else ((fast_pow_mod b (e div 2) m * fast_pow_mod b (e div 2) m) mod m * b) mod m)"
      using False by (subst fast_pow_mod.simps) (simp only: Let_def if_False)
    show ?thesis
    proof (cases "e mod 2 = 0")
      case True
      then have "e = 2 * (e div 2)"
        by presburger
      then have "nat e = nat (2 * (e div 2))"
        by simp
      also have "\<dots> = 2 * h"
        using \<open>0 \<le> e div 2\<close> by (simp add: h_def nat_mult_distrib)
      finally have e: "nat e = 2 * h" .
      show ?thesis
        using True by (simp add: unfold ih sq e)
    next
      case odd: False
      then have "e = 2 * (e div 2) + 1"
        by presburger
      then have "nat e = nat (2 * (e div 2) + 1)"
        by simp
      also have "\<dots> = Suc (2 * h)"
        using \<open>0 \<le> e div 2\<close> by (simp add: h_def nat_mult_distrib nat_add_distrib)
      finally have e: "nat e = Suc (2 * h)" .
      have "(b ^ (2 * h) mod m * b) mod m = (b ^ (2 * h) * b) mod m"
        by (rule mod_mult_left_eq)
      also have "b ^ (2 * h) * b = b ^ nat e"
        by (simp add: e)
      finally show ?thesis
        using odd by (simp add: unfold ih sq)
    qed
  qed
qed


lemma pow_mod_code [code]:
  "pow_mod b e m =
     (if m = 0 then Inl (ValueError ''pow() 3rd argument cannot be 0'')
      else if e < 0 then
        (case find (\<lambda>x. (b * x) mod m = 1 mod m) (if 0 < m then [0..m - 1] else [m + 1..0]) of
           None \<Rightarrow> Inl (ValueError ''base is not invertible for the given modulus'')
         | Some y \<Rightarrow> Inr (fast_pow_mod y (- e) m))
      else Inr (fast_pow_mod b e m))"
  by (auto simp: pow_mod_def fast_pow_mod_eq split: option.splits)


text \<open>Below \<open>2 ^ 64\<close> the verdict does not depend on the random source or on \<open>rounds\<close>.\<close>

lemma is_probable_prime_deterministic:
  "n < 2 ^ 64 \<Longrightarrow> is_probable_prime rnd n rounds = is_probable_prime rnd' n rounds'"
  by (simp add: is_probable_prime_def)

lemma product_not_prime:
  assumes "1 < a" and "1 < b"
  shows "\<not> is_prime (a * b)"
proof -
  have "a < a * b"
    using assms by simp
  then have "a \<in> set [2..a * b - 1]"
    using assms by simp
  moreover have "a dvd a * b"
    by simp
  ultimately show ?thesis
    unfolding is_prime_def list_all_iff by blast
qed

lemma mersenne61_trial: "trial_division (2 ^ 61 - 1) small = None"
  by code_simp

lemma mersenne61_decompose: "decompose (2 ^ 61 - 1) = Some (1152921504606846975, 1)"
  by code_simp

lemma mersenne61_witnesses:
  "all_witnesses DET_BASES_64 1 1152921504606846975 (2 ^ 61 - 1) = Inr True"
  by code_simp

lemma mersenne61_probable_prime: "is_probable_prime rnd (2 ^ 61 - 1) rounds = Some (Inr True)"
proof -
  have "(2::int) ^ 61 - 1 < 2 ^ 64" and "\<not> (2::int) ^ 61 - 1 < 2"
    by simp_all
  then show ?thesis
    unfolding is_probable_prime_def
    by (simp only: mersenne61_trial mersenne61_decompose mersenne61_witnesses
        if_True if_False option.case prod.case Let_def)
qed

text \<open>
  C6. On the spec's fixed test cases, whatever the random source and \<open>rounds\<close>:
  \<^verbatim>\<open>is_probable_prime(2**61 - 1)\<close> is true, \<^verbatim>\<open>is_probable_prime(341)\<close> is false (trial division
  by \<open>11\<close>), \<^verbatim>\<open>is_probable_prime(1)\<close> is false and \<^verbatim>\<open>is_probable_prime(2)\<close> is true.
\<close>

theorem is_probable_prime_fixed_cases:
  "is_probable_prime rnd (2 ^ 61 - 1) rounds = Some (Inr True)
   \<and> is_probable_prime rnd 341 rounds = Some (Inr False)
   \<and> is_probable_prime rnd 1 rounds = Some (Inr False)
   \<and> is_probable_prime rnd 2 rounds = Some (Inr True)"
proof -
  have "is_probable_prime rnd 341 rounds = Some (Inr False)"
    by (simp add: is_probable_prime_def small_def)
  moreover have "is_probable_prime rnd 1 rounds = Some (Inr False)"
    by (simp add: is_probable_prime_def)
  moreover have "is_probable_prime rnd 2 rounds = Some (Inr True)"
    by (simp add: is_probable_prime_def small_def)
  ultimately show ?thesis
    using mersenne61_probable_prime by simp
qed

text \<open>The ground truth of the three small cases.\<close>

lemma fixed_cases_ground_truth: "\<not> is_prime 341 \<and> \<not> is_prime 1 \<and> is_prime 2"
proof -
  have "\<not> is_prime (11 * 31)"
    by (rule product_not_prime) simp_all
  then have "\<not> is_prime 341"
    by simp
  moreover have "\<not> is_prime 1" and "is_prime 2"
    by (simp_all add: is_prime_def)
  ultimately show ?thesis
    by simp
qed

text \<open>
  The composite \<open>341550071728321 = 10670053 * 32010157\<close> has no factor among the small primes
  and passes the witness check for each of the bases \<open>2, 3, 5, 7, 11, 13, 17\<close>.
\<close>

lemma pseudoprime_trial: "trial_division 341550071728321 small = None"
  by code_simp

lemma pseudoprime_decompose: "decompose 341550071728321 = Some (5336719870755, 6)"
  by code_simp

lemma pseudoprime_witnesses:
  "all_witnesses DET_BASES_64 6 5336719870755 341550071728321 = Inr True"
  by code_simp

text \<open>
  C3. The claim: for every \<open>n < 2 ^ 64\<close>, \<^verbatim>\<open>is_probable_prime(n)\<close> is true if and only if \<open>n\<close> is
  prime. The verdict below \<open>2 ^ 64\<close> is indeed independent of the random source
  (\<open>is_probable_prime_deterministic\<close>), but at \<open>n = 341550071728321\<close>, which is below \<open>2 ^ 64\<close>
  and composite, the function returns true.
\<close>

theorem is_probable_prime_accepts_composite:
  "is_probable_prime rnd 341550071728321 rounds = Some (Inr True)
   \<and> (341550071728321::int) < 2 ^ 64
   \<and> (341550071728321::int) = 10670053 * 32010157
   \<and> \<not> is_prime 341550071728321"
proof -
  have small: "(341550071728321::int) < 2 ^ 64" and "\<not> (341550071728321::int) < 2"
    by simp_all
  then have run: "is_probable_prime rnd 341550071728321 rounds = Some (Inr True)"
    unfolding is_probable_prime_def
    by (simp only: pseudoprime_trial pseudoprime_decompose pseudoprime_witnesses
        if_True if_False option.case prod.case Let_def)
  have factors: "(341550071728321::int) = 10670053 * 32010157"
    by simp
  have "\<not> is_prime (10670053 * 32010157)"
    by (rule product_not_prime) simp_all
  then have "\<not> is_prime 341550071728321"
    by simp
  with run small factors show ?thesis
    by (simp only: simp_thms)
qed

section \<open>The sieve on concrete inputs\<close>

lemma sieve_examples:
  "sieve 50 = [2, 3, 5, 7, 11, 13, 17, 19, 23, 29, 31, 37, 41, 43, 47]
   \<and> sieve 1 = [] \<and> sieve 2 = [2]"
  by code_simp

text \<open>
  C1. The claim: \<^verbatim>\<open>sieve(limit)\<close> returns exactly the primes up to \<open>limit\<close>, \<open>limit\<close> itself
  included when it is prime. The candidates are the indices of \<^verbatim>\<open>range(1, limit // 2)\<close>, whose
  largest value is \<open>2 * (limit div 2) - 1\<close>: an odd \<open>limit\<close> is never a candidate. So
  \<^verbatim>\<open>sieve(3)\<close> is \<open>[2]\<close> and \<^verbatim>\<open>sieve(7)\<close> is \<open>[2, 3, 5]\<close>, although \<open>3\<close> and \<open>7\<close> are prime.
\<close>

theorem sieve_misses_odd_prime_limit:
  "sieve 3 = [2] \<and> is_prime 3 \<and> sieve 7 = [2, 3, 5] \<and> is_prime 7"
  by code_simp

end
